theory Spec2Isabelle
  imports Main
begin

section \<open>MatterServer: node registry, start and close sequencing\<close>

text \<open>
  The development embeds \<^verbatim>\<open>packages/matter.js/src/MatterServer.ts\<close>. The class keeps
  a private array of nodes and talks to collaborators whose code lives in other files: the
  storage manager, the two mdns factories and the node classes. Every call the server makes
  to a collaborator is recorded, in order, in a trace; an exception is a value of type
  \<open>error\<close>, and an \<^verbatim>\<open>async\<close> method is the sequence of its awaited calls.
\<close>

subsection \<open>Nodes, options and collaborator values\<close>

text \<open>
  The server reads three things of a node: its class (\<^verbatim>\<open>instanceof\<close>), its port
  (\<^verbatim>\<open>getPort()\<close>, servers only) and its deferred flag. The first field stands for
  the identity of the object.
\<close>

datatype CommissioningServer =
  CommissioningServer (serverObject: nat) (getPort: int) (delayedAnnouncement: bool)

datatype CommissioningController =
  CommissioningController (controllerObject: nat) (delayedPairing: bool)

datatype MatterNode =
    ServerNode CommissioningServer
  | ControllerNode CommissioningController

record NodeOptions =
  uniqueNodeId :: "string option"

datatype StorageContext = StorageContext string

datatype MdnsBroadcaster = MdnsBroadcaster "string option"

datatype MdnsScanner = MdnsScanner

subsection \<open>Collaborator calls, errors and the environment\<close>

datatype call =
    CreateContext string
  | SetStorage MatterNode StorageContext
  | MdnsBroadcasterCreate "string option"
  | MdnsScannerCreate
  | SetMdnsBroadcaster MatterNode MdnsBroadcaster
  | SetMdnsScanner MatterNode MdnsScanner
  | Advertise MatterNode
  | Connect MatterNode
  | NodeClose MatterNode

text \<open>
  \<open>RegistrationCapacityExceeded\<close> is \<^verbatim>\<open>Error("Only one node is allowed for now")\<close>,
  \<open>PortConflict p\<close> is \<^verbatim>\<open>Error(`Port ${p} is already in use by other node`)\<close>, and
  \<open>CollaboratorFailure c\<close> is whatever the collaborator call \<open>c\<close> raised (or the
  rejection of the promise it returned).
\<close>

datatype error =
    RegistrationCapacityExceeded
  | PortConflict int
  | CollaboratorFailure call

text \<open>
  The three setters of a node, by which the server hands it a storage context or a
  discovery service.
\<close>

fun isInjection :: "call \<Rightarrow> bool" where
  "isInjection (SetStorage _ _) = True"
| "isInjection (SetMdnsBroadcaster _ _) = True"
| "isInjection (SetMdnsScanner _ _) = True"
| "isInjection _ = False"

text \<open>
  The environment is a parameter: given the calls made so far and the next call, it says
  whether that call raises. Any call may raise, a setter as well: the server has no
  \<^verbatim>\<open>try\<close>, so whatever a collaborator throws leaves the method.
\<close>

type_synonym env = "call list \<Rightarrow> call \<Rightarrow> bool"

definition raises :: "env \<Rightarrow> call list \<Rightarrow> call \<Rightarrow> bool" where
  "raises env tr c = env tr c"

subsection \<open>The server's state and the sequencing of effects\<close>

record state =
  nodes :: "MatterNode list"
  mdnsAnnounceInterface :: "string option"
  trace :: "call list"

type_synonym 'a action = "state \<Rightarrow> (error + 'a) \<times> state"

definition succeed :: "'a \<Rightarrow> 'a action" where
  "succeed v s = (Inr v, s)"

definition throw :: "error \<Rightarrow> 'a action" where
  "throw e s = (Inl e, s)"

definition andThen :: "'a action \<Rightarrow> ('a \<Rightarrow> 'b action) \<Rightarrow> 'b action" where
  "andThen m f s = (case m s of (Inl e, s') \<Rightarrow> (Inl e, s') | (Inr v, s') \<Rightarrow> f v s')"

text \<open>A collaborator call that returns \<open>v\<close> unless it raises; either way it was made.\<close>

definition invoke :: "env \<Rightarrow> call \<Rightarrow> 'a \<Rightarrow> 'a action" where
  "invoke env c v s =
     (if raises env (trace s) c then Inl (CollaboratorFailure c) else Inr v,
      s\<lparr>trace := trace s @ [c]\<rparr>)"

text \<open>\<^verbatim>\<open>for (const x of xs) { ... }\<close>: an exception in the body leaves the loop.\<close>

fun forEach :: "'a list \<Rightarrow> ('a \<Rightarrow> unit action) \<Rightarrow> unit action" where
  "forEach [] body = succeed ()"
| "forEach (x # xs) body = andThen (body x) (\<lambda>_. forEach xs body)"

subsection \<open>Registration\<close>

text \<open>\<^verbatim>\<open>Number.prototype.toString()\<close> on an array length: the decimal digits.\<close>

definition digit :: "nat \<Rightarrow> char" where
  "digit d = ''0123456789'' ! d"

fun toString :: "nat \<Rightarrow> string" where
  "toString n = (if n < 10 then [digit n] else toString (n div 10) @ [digit (n mod 10)])"

declare toString.simps [simp del]

text \<open>\<^verbatim>\<open>nodeOptions?.uniqueNodeId ?? this.nodes.length.toString()\<close>\<close>

definition contextId :: "NodeOptions option \<Rightarrow> MatterNode list \<Rightarrow> string" where
  "contextId nodeOptions ns =
     (case nodeOptions of
        None \<Rightarrow> toString (length ns)
      | Some opts \<Rightarrow>
          (case uniqueNodeId opts of
             None \<Rightarrow> toString (length ns)
           | Some u \<Rightarrow> u))"

text \<open>
  The loop over \<^verbatim>\<open>this.nodes\<close> in \<^verbatim>\<open>addCommissioningServer\<close>, with its
  \<^verbatim>\<open>portCheckMap\<close>. It looks at the registered nodes only.
\<close>

fun portCheck :: "MatterNode list \<Rightarrow> (int \<rightharpoonup> bool) \<Rightarrow> error + unit" where
  "portCheck [] portCheckMap = Inr ()"
| "portCheck (ServerNode node # ns) portCheckMap =
     (let nodePort = getPort node in
      if portCheckMap nodePort \<noteq> None then Inl (PortConflict nodePort)
      else portCheck ns (portCheckMap(nodePort \<mapsto> True)))"
| "portCheck (ControllerNode node # ns) portCheckMap = portCheck ns portCheckMap"

definition createContext :: "env \<Rightarrow> string \<Rightarrow> StorageContext action" where
  "createContext env ident = invoke env (CreateContext ident) (StorageContext ident)"

definition setStorage :: "env \<Rightarrow> MatterNode \<Rightarrow> StorageContext \<Rightarrow> unit action" where
  "setStorage env node ctx = invoke env (SetStorage node ctx) ()"

definition push :: "MatterNode \<Rightarrow> unit action" where
  "push node s = (Inr (), s\<lparr>nodes := nodes s @ [node]\<rparr>)"

definition addCommissioningServer ::
  "env \<Rightarrow> CommissioningServer \<Rightarrow> NodeOptions option \<Rightarrow> unit action" where
  "addCommissioningServer env commissioningServer nodeOptions s =
     (if length (nodes s) > 0 then throw RegistrationCapacityExceeded s
      else
        (case portCheck (nodes s) Map.empty of
           Inl e \<Rightarrow> throw e s
         | Inr _ \<Rightarrow>
             andThen (createContext env (contextId nodeOptions (nodes s)))
               (\<lambda>ctx. andThen (setStorage env (ServerNode commissioningServer) ctx)
                 (\<lambda>_. push (ServerNode commissioningServer))) s))"

definition addCommissioningController ::
  "env \<Rightarrow> CommissioningController \<Rightarrow> NodeOptions option \<Rightarrow> unit action" where
  "addCommissioningController env commissioningController nodeOptions s =
     (if length (nodes s) > 0 then throw RegistrationCapacityExceeded s
      else
        andThen (createContext env (contextId nodeOptions (nodes s)))
          (\<lambda>ctx. andThen (setStorage env (ControllerNode commissioningController) ctx)
            (\<lambda>_. push (ControllerNode commissioningController))) s)"

subsection \<open>Start and close\<close>

definition createBroadcaster :: "env \<Rightarrow> string option \<Rightarrow> MdnsBroadcaster action" where
  "createBroadcaster env iface = invoke env (MdnsBroadcasterCreate iface) (MdnsBroadcaster iface)"

definition createScanner :: "env \<Rightarrow> MdnsScanner action" where
  "createScanner env = invoke env MdnsScannerCreate MdnsScanner"

text \<open>The body of the loop of \<^verbatim>\<open>start()\<close>, for one node.\<close>

fun startNode :: "env \<Rightarrow> string option \<Rightarrow> MatterNode \<Rightarrow> unit action" where
  "startNode env iface (ServerNode node) =
     andThen (createBroadcaster env iface)
       (\<lambda>b. andThen (invoke env (SetMdnsBroadcaster (ServerNode node) b) ())
         (\<lambda>_. andThen (createScanner env)
           (\<lambda>sc. andThen (invoke env (SetMdnsScanner (ServerNode node) sc) ())
             (\<lambda>_. if \<not> delayedAnnouncement node
                   then invoke env (Advertise (ServerNode node)) ()
                   else succeed ()))))"
| "startNode env iface (ControllerNode node) =
     andThen (createScanner env)
       (\<lambda>sc. andThen (invoke env (SetMdnsScanner (ControllerNode node) sc) ())
         (\<lambda>_. if \<not> delayedPairing node
               then invoke env (Connect (ControllerNode node)) ()
               else succeed ()))"

definition start :: "env \<Rightarrow> unit action" where
  "start env s = forEach (nodes s) (startNode env (mdnsAnnounceInterface s)) s"

definition close :: "env \<Rightarrow> unit action" where
  "close env s = forEach (nodes s) (\<lambda>node. invoke env (NodeClose node) ()) s"

subsection \<open>Runs of the public operations\<close>

datatype operation =
    OpAddCommissioningServer CommissioningServer "NodeOptions option"
  | OpAddCommissioningController CommissioningController "NodeOptions option"
  | OpStart
  | OpClose

fun perform :: "env \<Rightarrow> operation \<Rightarrow> unit action" where
  "perform env (OpAddCommissioningServer n opts) = addCommissioningServer env n opts"
| "perform env (OpAddCommissioningController n opts) = addCommissioningController env n opts"
| "perform env OpStart = start env"
| "perform env OpClose = close env"

text \<open>A caller that goes on after an error: the state after a list of operations.\<close>

fun run :: "env \<Rightarrow> operation list \<Rightarrow> state \<Rightarrow> state" where
  "run env [] s = s"
| "run env (op # ops) s = run env ops (snd (perform env op s))"

text \<open>\<^verbatim>\<open>new MatterServer(storageManager, mdnsAnnounceInterface)\<close>\<close>

definition newMatterServer :: "string option \<Rightarrow> state" where
  "newMatterServer iface = \<lparr>nodes = [], mdnsAnnounceInterface = iface, trace = []\<rparr>"

text \<open>The calls an operation added to the trace.\<close>

definition newCalls :: "state \<Rightarrow> state \<Rightarrow> call list" where
  "newCalls s s' = drop (length (trace s)) (trace s')"

subsection \<open>A sequence of calls, stopping at the first that raises\<close>

text \<open>
  Neither \<^verbatim>\<open>start()\<close> nor \<^verbatim>\<open>close()\<close> looks at what a collaborator returns,
  so each of them is the run of a fixed list of calls: \<open>startCalls\<close> for each node in
  turn, or one \<open>NodeClose\<close> for each node.
\<close>

definition exec :: "env \<Rightarrow> call list \<Rightarrow> unit action" where
  "exec env cs = forEach cs (\<lambda>c. invoke env c ())"

fun startCalls :: "string option \<Rightarrow> MatterNode \<Rightarrow> call list" where
  "startCalls iface (ServerNode n) =
     [MdnsBroadcasterCreate iface, SetMdnsBroadcaster (ServerNode n) (MdnsBroadcaster iface),
      MdnsScannerCreate, SetMdnsScanner (ServerNode n) MdnsScanner]
     @ (if \<not> delayedAnnouncement n then [Advertise (ServerNode n)] else [])"
| "startCalls iface (ControllerNode n) =
     [MdnsScannerCreate, SetMdnsScanner (ControllerNode n) MdnsScanner]
     @ (if \<not> delayedPairing n then [Connect (ControllerNode n)] else [])"

subsection \<open>Example nodes and environments\<close>

text \<open>Two servers on port 5540, a server and a controller with the deferred flag set.\<close>

definition serverA :: CommissioningServer where
  "serverA = CommissioningServer 1 5540 False"

definition serverB :: CommissioningServer where
  "serverB = CommissioningServer 2 5540 False"

definition deferredServer :: CommissioningServer where
  "deferredServer = CommissioningServer 3 5541 True"

definition controllerC :: CommissioningController where
  "controllerC = CommissioningController 4 False"

definition deferredController :: CommissioningController where
  "deferredController = CommissioningController 5 True"

text \<open>An environment in which no call raises, and one in which exactly the given call does.\<close>

definition reliable :: env where
  "reliable tr c = False"

definition failingAt :: "call \<Rightarrow> env" where
  "failingAt bad tr c = (c = bad)"

text \<open>A server object with the given registry, before any call was made.\<close>

definition serverWith :: "MatterNode list \<Rightarrow> state" where
  "serverWith ns = \<lparr>nodes = ns, mdnsAnnounceInterface = None, trace = []\<rparr>"

subsection \<open>Order of calls\<close>

text \<open>
  Every occurrence of the call \<open>c\<close> in \<open>cs\<close> comes right after the calls \<open>pre\<close>.
\<close>

definition precededBy :: "call list \<Rightarrow> call \<Rightarrow> call list \<Rightarrow> bool" where
  "precededBy cs c pre =
     (\<forall>i<length cs. cs ! i = c \<longrightarrow>
        length pre \<le> i \<and> take (length pre) (drop (i - length pre) cs) = pre)"

text \<open>The call \<^verbatim>\<open>node.setStorage(...)\<close> on the given node.\<close>

fun assignsStorage :: "MatterNode \<Rightarrow> call \<Rightarrow> bool" where
  "assignsStorage node (SetStorage n ctx) = (n = node)"
| "assignsStorage node _ = False"

text \<open>The calls among \<open>cs\<close>, made after the calls \<open>tr\<close>, that returned.\<close>

fun returned :: "env \<Rightarrow> call list \<Rightarrow> call list \<Rightarrow> call list" where
  "returned env tr [] = []"
| "returned env tr (c # cs) =
     (if raises env tr c then [] else [c]) @ returned env (tr @ [c]) cs"

text \<open>An environment in which the given call raises the first time it is made.\<close>

definition failingFirst :: "call \<Rightarrow> env" where
  "failingFirst bad tr c = (c = bad \<and> bad \<notin> set tr)"

text \<open>
  The registry holds at most one node, and \<^verbatim>\<open>setStorage\<close> has returned on a node as
  many times as the node stands in the registry.
\<close>

definition assignedAsRegistered :: "env \<Rightarrow> state \<Rightarrow> bool" where
  "assignedAsRegistered env s \<longleftrightarrow>
     length (nodes s) \<le> 1 \<and>
     (\<forall>node. length (filter (assignsStorage node) (returned env [] (trace s)))
               = count_list (nodes s) node)"

subsection \<open>Facts about runs of calls\<close>

lemma exec_Nil: "exec env [] = succeed ()"
  by (simp add: exec_def)

lemma exec_Cons: "exec env (c # cs) = andThen (invoke env c ()) (\<lambda>_. exec env cs)"
  by (simp add: exec_def)

lemma andThen_succeed: "andThen m (\<lambda>_. succeed ()) = (m :: unit action)"
  by (rule ext) (auto simp: andThen_def succeed_def split: prod.splits sum.splits)

lemma andThen_assoc: "andThen (andThen m f) g = andThen m (\<lambda>v. andThen (f v) g)"
  by (rule ext) (auto simp: andThen_def split: prod.splits sum.splits)

lemma succeed_andThen: "andThen (succeed v) f = f v"
  by (rule ext) (simp add: andThen_def succeed_def)

lemma exec_append: "exec env (a @ b) = andThen (exec env a) (\<lambda>_. exec env b)"
  by (induction a) (simp_all add: exec_Nil exec_Cons succeed_andThen andThen_assoc)

lemma startNode_exec: "startNode env iface node = exec env (startCalls iface node)"
proof (rule ext)
  fix s
  show "startNode env iface node s = exec env (startCalls iface node) s"
    by (cases node)
       (simp_all add: createBroadcaster_def createScanner_def exec_Cons exec_Nil
          andThen_def invoke_def succeed_def)
qed

lemma forEach_exec:
  "(\<And>x. body x = exec env (script x)) \<Longrightarrow> forEach xs body = exec env (concat (map script xs))"
  by (induction xs) (simp_all add: exec_Nil exec_append)

lemma start_exec:
  "start env s = exec env (concat (map (startCalls (mdnsAnnounceInterface s)) (nodes s))) s"
  by (simp add: start_def forEach_exec [OF startNode_exec])

lemma close_exec: "close env s = exec env (map NodeClose (nodes s)) s"
proof -
  have "forEach xs (\<lambda>node. invoke env (NodeClose node) ()) = exec env (map NodeClose xs)" for xs
    by (induction xs) (simp_all add: exec_Nil exec_Cons)
  then show ?thesis by (simp add: close_def)
qed

lemma exec_cases:
  "exec env cs s = (r, s') \<Longrightarrow>
     (r = Inr () \<and> s' = s\<lparr>trace := trace s @ cs\<rparr> \<and>
        (\<forall>j<length cs. \<not> raises env (trace s @ take j cs) (cs ! j)))
   \<or> (\<exists>k<length cs. r = Inl (CollaboratorFailure (cs ! k)) \<and>
        s' = s\<lparr>trace := trace s @ take (Suc k) cs\<rparr> \<and>
        raises env (trace s @ take k cs) (cs ! k) \<and>
        (\<forall>j<k. \<not> raises env (trace s @ take j cs) (cs ! j)))"
proof (induction cs arbitrary: s)
  case Nil
  then show ?case by (simp add: exec_Nil succeed_def)
next
  case (Cons c cs)
  show ?case
  proof (cases "raises env (trace s) c")
    case True
    with Cons.prems have "r = Inl (CollaboratorFailure c)" "s' = s\<lparr>trace := trace s @ [c]\<rparr>"
      by (auto simp: exec_Cons andThen_def invoke_def)
    with True show ?thesis
      by (intro disjI2 exI [of _ 0]) simp
  next
    case False
    let ?s1 = "s\<lparr>trace := trace s @ [c]\<rparr>"
    from False Cons.prems have run: "exec env cs ?s1 = (r, s')"
      by (auto simp: exec_Cons andThen_def invoke_def)
    from Cons.IH [OF run] show ?thesis
    proof (elim disjE conjE exE)
      assume r: "r = Inr ()" and s': "s' = ?s1\<lparr>trace := trace ?s1 @ cs\<rparr>"
        and ok: "\<forall>j<length cs. \<not> raises env (trace ?s1 @ take j cs) (cs ! j)"
      have "\<not> raises env (trace s @ take j (c # cs)) ((c # cs) ! j)" if "j < length (c # cs)" for j
        using that False ok by (cases j) auto
      with r s' show ?thesis by simp
    next
      fix k
      assume k: "k < length cs" and r: "r = Inl (CollaboratorFailure (cs ! k))"
        and s': "s' = ?s1\<lparr>trace := trace ?s1 @ take (Suc k) cs\<rparr>"
        and bad: "raises env (trace ?s1 @ take k cs) (cs ! k)"
        and ok: "\<forall>j<k. \<not> raises env (trace ?s1 @ take j cs) (cs ! j)"
      have "\<not> raises env (trace s @ take j (c # cs)) ((c # cs) ! j)" if "j < Suc k" for j
        using that False ok by (cases j) auto
      with k r s' bad show ?thesis
        by (intro disjI2 exI [of _ "Suc k"]) simp
    qed
  qed
qed

lemma newCalls_append: "trace s' = trace s @ new \<Longrightarrow> newCalls s s' = new"
  by (simp add: newCalls_def)

lemma exec_frame:
  "exec env cs s = (r, s') \<Longrightarrow>
     nodes s' = nodes s \<and> mdnsAnnounceInterface s' = mdnsAnnounceInterface s \<and>
     trace s' = trace s @ newCalls s s'"
  by (drule exec_cases) (auto simp: newCalls_def)

lemma exec_prefix:
  "exec env cs s = (r, s') \<Longrightarrow> \<exists>k\<le>length cs. newCalls s s' = take k cs"
proof (drule exec_cases, elim disjE conjE exE)
  assume "s' = s\<lparr>trace := trace s @ cs\<rparr>"
  then have "newCalls s s' = take (length cs) cs" by (simp add: newCalls_def)
  then show ?thesis by blast
next
  fix k assume "k < length cs" "s' = s\<lparr>trace := trace s @ take (Suc k) cs\<rparr>"
  then have "Suc k \<le> length cs" "newCalls s s' = take (Suc k) cs" by (simp_all add: newCalls_def)
  then show ?thesis by blast
qed

lemma exec_success:
  "exec env cs s = (Inr (), s') \<Longrightarrow> newCalls s s' = cs"
  by (drule exec_cases) (auto simp: newCalls_def)

lemma exec_failure:
  assumes "exec env cs s = (Inl e, s')"
  shows "newCalls s s' \<noteq> [] \<and> e = CollaboratorFailure (last (newCalls s s')) \<and>
         raises env (trace s @ butlast (newCalls s s')) (last (newCalls s s'))"
proof -
  from exec_cases [OF assms] obtain k where k: "k < length cs"
    and e: "e = CollaboratorFailure (cs ! k)"
    and s': "s' = s\<lparr>trace := trace s @ take (Suc k) cs\<rparr>"
    and bad: "raises env (trace s @ take k cs) (cs ! k)"
    by auto
  from s' have new: "newCalls s s' = take (Suc k) cs" by (simp add: newCalls_def)
  from k have "take (Suc k) cs = take k cs @ [cs ! k]" by (simp add: take_Suc_conv_app_nth)
  with new e bad show ?thesis by simp
qed

lemma exec_raise_is_last:
  assumes run: "exec env cs s = (r, s')"
    and i: "i < length (newCalls s s')"
    and bad: "raises env (trace s @ take i (newCalls s s')) (newCalls s s' ! i)"
  shows "r = Inl (CollaboratorFailure (newCalls s s' ! i)) \<and> Suc i = length (newCalls s s')"
  using exec_cases [OF run]
proof (elim disjE conjE exE)
  assume s': "s' = s\<lparr>trace := trace s @ cs\<rparr>"
    and ok: "\<forall>j<length cs. \<not> raises env (trace s @ take j cs) (cs ! j)"
  from s' have "newCalls s s' = cs" by (simp add: newCalls_def)
  with i bad ok show ?thesis by auto
next
  fix k
  assume k: "k < length cs" and r: "r = Inl (CollaboratorFailure (cs ! k))"
    and s': "s' = s\<lparr>trace := trace s @ take (Suc k) cs\<rparr>"
    and ok: "\<forall>j<k. \<not> raises env (trace s @ take j cs) (cs ! j)"
  from s' have new: "newCalls s s' = take (Suc k) cs" by (simp add: newCalls_def)
  with i k have ik: "i \<le> k" by simp
  from ik have "take i (take (Suc k) cs) = take i cs" by (simp add: min_def)
  moreover from ik have "take (Suc k) cs ! i = cs ! i" by simp
  ultimately have "raises env (trace s @ take i cs) (cs ! i)" using bad new by simp
  with ok have "\<not> i < k" by blast
  with ik have "i = k" by simp
  with r new k show ?thesis by simp
qed

lemma precededBy_append:
  assumes a: "precededBy a c pre" and b: "precededBy b c pre"
  shows "precededBy (a @ b) c pre"
  unfolding precededBy_def
proof (intro allI impI)
  fix i
  assume i: "i < length (a @ b)" and c: "(a @ b) ! i = c"
  let ?n = "length pre"
  show "?n \<le> i \<and> take ?n (drop (i - ?n) (a @ b)) = pre"
  proof (cases "i < length a")
    case True
    with c a have n: "?n \<le> i" and pre: "take ?n (drop (i - ?n) a) = pre"
      by (auto simp: precededBy_def nth_append)
    from pre have "length (take ?n (drop (i - ?n) a)) = ?n" by simp
    then have "?n \<le> length (drop (i - ?n) a)" by simp
    with n pre True show ?thesis by simp
  next
    case False
    from False i have "i - length a < length b" by simp
    moreover from False c have "b ! (i - length a) = c" by (simp add: nth_append)
    ultimately have n: "?n \<le> i - length a"
      and pre: "take ?n (drop (i - length a - ?n) b) = pre"
      using b unfolding precededBy_def by blast+
    have "i - ?n - length a = i - length a - ?n" by simp
    with n pre False show ?thesis by simp
  qed
qed

lemma precededBy_take:
  assumes "precededBy cs c pre"
  shows "precededBy (take k cs) c pre"
  unfolding precededBy_def
proof (intro allI impI)
  fix i
  assume i: "i < length (take k cs)" and c: "take k cs ! i = c"
  let ?n = "length pre"
  from i c assms have n: "?n \<le> i" and pre: "take ?n (drop (i - ?n) cs) = pre"
    by (auto simp: precededBy_def)
  from i n have "min ?n (k - (i - ?n)) = ?n" by simp arith
  with n pre show "?n \<le> i \<and> take ?n (drop (i - ?n) (take k cs)) = pre"
    by (simp add: drop_take)
qed

lemma precededBy_concat:
  "(\<And>x. x \<in> set xs \<Longrightarrow> precededBy (f x) c pre) \<Longrightarrow> precededBy (concat (map f xs)) c pre"
  by (induction xs) (simp_all add: precededBy_append, simp add: precededBy_def)

lemma precededBy_absent: "c \<notin> set cs \<Longrightarrow> precededBy cs c pre"
  by (auto simp: precededBy_def)

lemma startCalls_advertise:
  "precededBy (startCalls iface n) (Advertise node)
     [MdnsBroadcasterCreate iface, SetMdnsBroadcaster node (MdnsBroadcaster iface),
      MdnsScannerCreate, SetMdnsScanner node MdnsScanner]"
proof (cases "Advertise node \<in> set (startCalls iface n)")
  case False
  then show ?thesis by (rule precededBy_absent)
next
  case True
  then have "startCalls iface n =
     [MdnsBroadcasterCreate iface, SetMdnsBroadcaster node (MdnsBroadcaster iface),
      MdnsScannerCreate, SetMdnsScanner node MdnsScanner, Advertise node]"
    by (cases n) (auto split: if_splits)
  then show ?thesis
    by (auto simp: precededBy_def nth_Cons split: nat.splits)
qed

lemma startCalls_connect:
  "precededBy (startCalls iface n) (Connect node)
     [MdnsScannerCreate, SetMdnsScanner node MdnsScanner]"
proof (cases "Connect node \<in> set (startCalls iface n)")
  case False
  then show ?thesis by (rule precededBy_absent)
next
  case True
  then have "startCalls iface n =
     [MdnsScannerCreate, SetMdnsScanner node MdnsScanner, Connect node]"
    by (cases n) (auto split: if_splits)
  then show ?thesis
    by (auto simp: precededBy_def nth_Cons split: nat.splits)
qed

lemma startCalls_deferred:
  "delayedAnnouncement n \<Longrightarrow> Advertise (ServerNode n) \<notin> set (startCalls iface x)"
  "delayedPairing c \<Longrightarrow> Connect (ControllerNode c) \<notin> set (startCalls iface x)"
  by (cases x; auto)+

lemma startCalls_variant:
  "SetMdnsBroadcaster (ControllerNode c) b \<notin> set (startCalls iface x)"
  "Advertise (ControllerNode c) \<notin> set (startCalls iface x)"
  "Connect (ServerNode n) \<notin> set (startCalls iface x)"
  by (cases x; auto)+

lemma startCalls_no_storage:
  "SetStorage node ctx \<notin> set (startCalls iface x)"
  "CreateContext ident \<notin> set (startCalls iface x)"
  by (cases x; auto)+

lemma count_list_take: "count_list (take k xs) x \<le> count_list xs x"
proof (induction xs arbitrary: k)
  case Nil
  then show ?case by simp
next
  case (Cons y ys)
  show ?case
  proof (cases k)
    case 0
    then show ?thesis by simp
  next
    case (Suc m)
    with Cons.IH [of m] show ?thesis by simp
  qed
qed

lemma startCalls_count:
  "count_list (startCalls iface x) (Advertise node) \<le> (if x = node then 1 else 0)"
  "count_list (startCalls iface x) (Connect node) \<le> (if x = node then 1 else 0)"
  by (cases x; auto)+

lemma start_calls_count_advertise:
  "count_list (concat (map (startCalls iface) ns)) (Advertise node) \<le> count_list ns node"
proof (induction ns)
  case Nil
  then show ?case by simp
next
  case (Cons x xs)
  with startCalls_count(1) [of iface x node] show ?case by (simp split: if_splits)
qed

lemma start_calls_count_connect:
  "count_list (concat (map (startCalls iface) ns)) (Connect node) \<le> count_list ns node"
proof (induction ns)
  case Nil
  then show ?case by simp
next
  case (Cons x xs)
  with startCalls_count(2) [of iface x node] show ?case by (simp split: if_splits)
qed

lemma start_prefix:
  assumes "start env s = (r, s')"
  shows "\<exists>k. newCalls s s' = take k (concat (map (startCalls (mdnsAnnounceInterface s)) (nodes s)))"
  using exec_prefix [of env _ s r s'] assms by (auto simp: start_exec)

lemma start_calls_subset:
  assumes "start env s = (r, s')"
  shows "set (newCalls s s') \<subseteq> (\<Union>x\<in>set (nodes s). set (startCalls (mdnsAnnounceInterface s) x))"
proof -
  from start_prefix [OF assms] obtain k where
    "newCalls s s' = take k (concat (map (startCalls (mdnsAnnounceInterface s)) (nodes s)))" ..
  then have "set (newCalls s s') \<subseteq> set (concat (map (startCalls (mdnsAnnounceInterface s)) (nodes s)))"
    using set_take_subset [of k "concat (map (startCalls (mdnsAnnounceInterface s)) (nodes s))"]
    by simp
  then show ?thesis by simp
qed

lemma set_concat_map: "x \<in> set xs \<Longrightarrow> set (f x) \<subseteq> set (concat (map f xs))"
  by auto

lemma toString_zero: "toString 0 = ''0''"
  by (simp add: toString.simps digit_def)

lemma add_server_cases:
  "addCommissioningServer env a opts s =
     (if nodes s \<noteq> [] then (Inl RegistrationCapacityExceeded, s)
      else if raises env (trace s) (CreateContext (contextId opts (nodes s)))
      then (Inl (CollaboratorFailure (CreateContext (contextId opts (nodes s)))),
            s\<lparr>trace := trace s @ [CreateContext (contextId opts (nodes s))]\<rparr>)
      else if raises env (trace s @ [CreateContext (contextId opts (nodes s))])
                (SetStorage (ServerNode a) (StorageContext (contextId opts (nodes s))))
      then (Inl (CollaboratorFailure
                  (SetStorage (ServerNode a) (StorageContext (contextId opts (nodes s))))),
            s\<lparr>trace := trace s @ [CreateContext (contextId opts (nodes s)),
                      SetStorage (ServerNode a) (StorageContext (contextId opts (nodes s)))]\<rparr>)
      else (Inr (),
            s\<lparr>trace := trace s @ [CreateContext (contextId opts (nodes s)),
                      SetStorage (ServerNode a) (StorageContext (contextId opts (nodes s)))],
              nodes := nodes s @ [ServerNode a]\<rparr>))"
  by (simp add: addCommissioningServer_def throw_def andThen_def createContext_def setStorage_def
      invoke_def raises_def push_def)

lemma add_controller_cases:
  "addCommissioningController env a opts s =
     (if nodes s \<noteq> [] then (Inl RegistrationCapacityExceeded, s)
      else if raises env (trace s) (CreateContext (contextId opts (nodes s)))
      then (Inl (CollaboratorFailure (CreateContext (contextId opts (nodes s)))),
            s\<lparr>trace := trace s @ [CreateContext (contextId opts (nodes s))]\<rparr>)
      else if raises env (trace s @ [CreateContext (contextId opts (nodes s))])
                (SetStorage (ControllerNode a) (StorageContext (contextId opts (nodes s))))
      then (Inl (CollaboratorFailure
                  (SetStorage (ControllerNode a) (StorageContext (contextId opts (nodes s))))),
            s\<lparr>trace := trace s @ [CreateContext (contextId opts (nodes s)),
                      SetStorage (ControllerNode a) (StorageContext (contextId opts (nodes s)))]\<rparr>)
      else (Inr (),
            s\<lparr>trace := trace s @ [CreateContext (contextId opts (nodes s)),
                      SetStorage (ControllerNode a) (StorageContext (contextId opts (nodes s)))],
              nodes := nodes s @ [ControllerNode a]\<rparr>))"
  by (simp add: addCommissioningController_def throw_def andThen_def createContext_def
      setStorage_def invoke_def raises_def push_def)

lemma assignsStorage_iff: "assignsStorage node c \<longleftrightarrow> (\<exists>ctx. c = SetStorage node ctx)"
  by (cases c) auto

lemma exec_no_storage:
  assumes run: "exec env cs s = (r, s')" and none: "SetStorage node ctx \<notin> set cs"
  shows "SetStorage node ctx \<notin> set (newCalls s s')"
proof -
  from exec_prefix [OF run] obtain k where "newCalls s s' = take k cs" by blast
  with none show ?thesis by (auto dest: in_set_takeD)
qed

lemma start_no_storage: "SetStorage node ctx \<notin> set (newCalls s (snd (start env s)))"
proof (rule exec_no_storage)
  show "exec env (concat (map (startCalls (mdnsAnnounceInterface s)) (nodes s))) s
          = (fst (start env s), snd (start env s))"
    by (simp add: start_exec)
  show "SetStorage node ctx \<notin> set (concat (map (startCalls (mdnsAnnounceInterface s)) (nodes s)))"
    using startCalls_no_storage(1) [of node ctx "mdnsAnnounceInterface s"] by simp
qed

lemma close_no_storage: "SetStorage node ctx \<notin> set (newCalls s (snd (close env s)))"
proof (rule exec_no_storage)
  show "exec env (map NodeClose (nodes s)) s = (fst (close env s), snd (close env s))"
    by (simp add: close_exec)
  show "SetStorage node ctx \<notin> set (map NodeClose (nodes s))"
    by auto
qed

lemma count_list_short:
  "length xs \<le> 1 \<Longrightarrow> count_list xs x = (if x \<in> set xs then 1 else 0)"
  by (cases xs) auto

lemma returned_append:
  "returned env tr (a @ b) = returned env tr a @ returned env (tr @ a) b"
  by (induction a arbitrary: tr) simp_all

lemma returned_subset: "set (returned env tr cs) \<subseteq> set cs"
  by (induction cs arbitrary: tr) auto

lemma returned_no_storage:
  assumes "\<And>ctx. SetStorage node ctx \<notin> set cs"
  shows "filter (assignsStorage node) (returned env tr cs) = []"
proof -
  from assms returned_subset [of env tr cs]
  have "\<And>ctx. SetStorage node ctx \<notin> set (returned env tr cs)" by blast
  then show ?thesis by (auto simp: filter_empty_conv assignsStorage_iff)
qed

lemma returned_new_calls:
  assumes "trace s' = trace s @ newCalls s s'"
    and "\<And>ctx. SetStorage node ctx \<notin> set (newCalls s s')"
  shows "filter (assignsStorage node) (returned env [] (trace s'))
           = filter (assignsStorage node) (returned env [] (trace s))"
proof -
  have "returned env [] (trace s') = returned env [] (trace s) @ returned env (trace s) (newCalls s s')"
    using assms(1) returned_append [of env "[]" "trace s" "newCalls s s'"] by simp
  with returned_no_storage [of node "newCalls s s'" env "trace s"] assms(2)
  show ?thesis by simp
qed

lemma start_assignments:
  "filter (assignsStorage node) (returned env' [] (trace (snd (start env s))))
     = filter (assignsStorage node) (returned env' [] (trace s))
   \<and> nodes (snd (start env s)) = nodes s"
proof -
  have run: "exec env (concat (map (startCalls (mdnsAnnounceInterface s)) (nodes s))) s
          = (fst (start env s), snd (start env s))"
    by (simp add: start_exec)
  from exec_frame [OF run]
  have tr: "trace (snd (start env s)) = trace s @ newCalls s (snd (start env s))"
    and ns: "nodes (snd (start env s)) = nodes s"
    by simp_all
  have "filter (assignsStorage node) (returned env' [] (trace (snd (start env s))))
     = filter (assignsStorage node) (returned env' [] (trace s))"
    by (rule returned_new_calls [OF tr]) (rule start_no_storage)
  with ns show ?thesis by simp
qed

lemma close_assignments:
  "filter (assignsStorage node) (returned env' [] (trace (snd (close env s))))
     = filter (assignsStorage node) (returned env' [] (trace s))
   \<and> nodes (snd (close env s)) = nodes s"
proof -
  have run: "exec env (map NodeClose (nodes s)) s = (fst (close env s), snd (close env s))"
    by (simp add: close_exec)
  from exec_frame [OF run]
  have tr: "trace (snd (close env s)) = trace s @ newCalls s (snd (close env s))"
    and ns: "nodes (snd (close env s)) = nodes s"
    by simp_all
  have "filter (assignsStorage node) (returned env' [] (trace (snd (close env s))))
     = filter (assignsStorage node) (returned env' [] (trace s))"
    by (rule returned_new_calls [OF tr]) (rule close_no_storage)
  with ns show ?thesis by simp
qed

lemma add_server_assignedAsRegistered:
  assumes "assignedAsRegistered env s"
  shows "assignedAsRegistered env (snd (addCommissioningServer env a opts s))"
proof (cases "nodes s = []")
  case False
  with assms show ?thesis by (simp add: add_server_cases)
next
  case True
  with assms show ?thesis
    by (simp add: assignedAsRegistered_def add_server_cases
        returned_append [of env "[]" "trace s"])
qed

lemma add_controller_assignedAsRegistered:
  assumes "assignedAsRegistered env s"
  shows "assignedAsRegistered env (snd (addCommissioningController env a opts s))"
proof (cases "nodes s = []")
  case False
  with assms show ?thesis by (simp add: add_controller_cases)
next
  case True
  with assms show ?thesis
    by (simp add: assignedAsRegistered_def add_controller_cases
        returned_append [of env "[]" "trace s"])
qed

lemma perform_assignedAsRegistered:
  assumes "assignedAsRegistered env s"
  shows "assignedAsRegistered env (snd (perform env op s))"
proof (cases op)
  case (OpAddCommissioningServer a opts)
  with assms show ?thesis by (simp add: add_server_assignedAsRegistered)
next
  case (OpAddCommissioningController a opts)
  with assms show ?thesis by (simp add: add_controller_assignedAsRegistered)
next
  case OpStart
  with assms show ?thesis
    by (simp add: assignedAsRegistered_def start_assignments)
next
  case OpClose
  with assms show ?thesis
    by (simp add: assignedAsRegistered_def close_assignments)
qed

lemma run_assignedAsRegistered:
  "assignedAsRegistered env s \<Longrightarrow> assignedAsRegistered env (run env ops s)"
  by (induction ops arbitrary: s) (simp_all add: perform_assignedAsRegistered)

lemma new_assignedAsRegistered: "assignedAsRegistered env (newMatterServer iface)"
  by (simp add: assignedAsRegistered_def newMatterServer_def)





section \<open>The claims\<close>

text \<open>
  C1: once the registry holds a node, \<^verbatim>\<open>addCommissioningServer\<close> and
  \<^verbatim>\<open>addCommissioningController\<close> both throw the capacity error, and they do so
  before anything changes: the state returned is the state given, so the registry is the same
  and no storage context was created or injected (the trace is the same).
\<close>

theorem add_when_registered:
  assumes "nodes s \<noteq> []"
  shows "addCommissioningServer env commissioningServer nodeOptions s
           = (Inl RegistrationCapacityExceeded, s)
       \<and> addCommissioningController env commissioningController nodeOptions' s
           = (Inl RegistrationCapacityExceeded, s)"
  using assms by (simp add: addCommissioningServer_def addCommissioningController_def throw_def)

theorem add_when_registered_witness:
  "nodes (snd (addCommissioningServer reliable serverA None (newMatterServer None)))
     = [ServerNode serverA]
   \<and> addCommissioningServer reliable serverB None
         (snd (addCommissioningServer reliable serverA None (newMatterServer None)))
       = (Inl RegistrationCapacityExceeded,
          snd (addCommissioningServer reliable serverA None (newMatterServer None)))
   \<and> addCommissioningController reliable controllerC None
         (snd (addCommissioningServer reliable serverA None (newMatterServer None)))
       = (Inl RegistrationCapacityExceeded,
          snd (addCommissioningServer reliable serverA None (newMatterServer None)))"
proof -
  have registered:
    "nodes (snd (addCommissioningServer reliable serverA None (newMatterServer None)))
       = [ServerNode serverA]"
    by (simp add: add_server_cases newMatterServer_def reliable_def raises_def)
  then have "nodes (snd (addCommissioningServer reliable serverA None (newMatterServer None)))
       \<noteq> []"
    by simp
  from add_when_registered [OF this, of reliable serverB None controllerC None] registered
  show ?thesis by simp
qed

text \<open>
  C2, as stated, fails: \<^verbatim>\<open>addCommissioningServer\<close> tests the capacity first, so the
  second of two servers on port 5540 is refused with the capacity error, not with a port
  conflict.
\<close>

theorem same_port_counterexample:
  "fst (addCommissioningServer reliable serverB None
         (snd (addCommissioningServer reliable serverA None (newMatterServer None))))
     = Inl RegistrationCapacityExceeded
   \<and> getPort serverA = getPort serverB
   \<and> fst (addCommissioningServer reliable serverA None (newMatterServer None)) = Inr ()
   \<and> fst (addCommissioningServer reliable serverB None
         (snd (addCommissioningServer reliable serverA None (newMatterServer None))))
     \<noteq> Inl (PortConflict 5540)"
  by (simp add: add_server_cases newMatterServer_def reliable_def raises_def serverA_def
      serverB_def)

text \<open>
  C2 (amended): for every pair of servers, with the same port or not, once the first is
  registered the attempt to register the second fails with the capacity error and changes
  nothing: the capacity check comes before the port check. No call of
  \<^verbatim>\<open>addCommissioningServer\<close> ends in a port conflict.
\<close>

theorem second_server_refused_by_capacity:
  assumes "addCommissioningServer env first opts s = (Inr (), s1)"
  shows "addCommissioningServer env' second opts' s1 = (Inl RegistrationCapacityExceeded, s1)
       \<and> fst (addCommissioningServer anyEnv anyServer anyOpts anyState) \<noteq> Inl (PortConflict p)"
proof -
  from assms have "nodes s1 \<noteq> []"
    by (auto simp: add_server_cases split: if_splits)
  then show ?thesis
    by (simp add: add_server_cases)
qed

theorem second_server_refused_by_capacity_witness:
  "addCommissioningServer reliable serverA None (newMatterServer None)
     = (Inr (), \<lparr>nodes = [ServerNode serverA], mdnsAnnounceInterface = None,
                trace = [CreateContext ''0'', SetStorage (ServerNode serverA) (StorageContext ''0'')]\<rparr>)
   \<and> addCommissioningServer reliable serverB None
       \<lparr>nodes = [ServerNode serverA], mdnsAnnounceInterface = None,
        trace = [CreateContext ''0'', SetStorage (ServerNode serverA) (StorageContext ''0'')]\<rparr>
     = (Inl RegistrationCapacityExceeded,
        \<lparr>nodes = [ServerNode serverA], mdnsAnnounceInterface = None,
         trace = [CreateContext ''0'', SetStorage (ServerNode serverA) (StorageContext ''0'')]\<rparr>)
   \<and> getPort serverA = getPort serverB"
proof -
  have first: "addCommissioningServer reliable serverA None (newMatterServer None)
     = (Inr (), \<lparr>nodes = [ServerNode serverA], mdnsAnnounceInterface = None,
                trace = [CreateContext ''0'', SetStorage (ServerNode serverA) (StorageContext ''0'')]\<rparr>)"
    by (simp add: add_server_cases newMatterServer_def reliable_def raises_def contextId_def
        toString_zero)
  from second_server_refused_by_capacity [OF first, of reliable serverB None] first
  show ?thesis by (simp add: serverA_def serverB_def)
qed

text \<open>
  The loop that looks for a port conflict runs over the registered nodes only and compares
  their ports with each other; the port of the server being added is not read.
\<close>

lemma portCheck_registered_only:
  "portCheck [ServerNode serverA] Map.empty = Inr ()"
  "portCheck [ServerNode serverA, ServerNode serverB] Map.empty = Inl (PortConflict 5540)"
  by (auto simp: serverA_def serverB_def)



text \<open>
  C4: in \<^verbatim>\<open>start()\<close> every \<^verbatim>\<open>advertise()\<close> of a node comes right after the
  creation of a broadcaster, its injection into that node, the creation of a scanner and its
  injection into that node; every \<^verbatim>\<open>connect()\<close> of a node comes right after the creation
  of a scanner and its injection into that node. A node whose deferred flag is set is never
  advertised or connected. When \<^verbatim>\<open>start()\<close> returns, every registered node has been
  given its discovery services, and its default action has run unless it is deferred.
\<close>

theorem start_injects_before_default_action:
  assumes "start env s = (r, s')"
  shows "trace s' = trace s @ newCalls s s'
    \<and> precededBy (newCalls s s') (Advertise node)
         [MdnsBroadcasterCreate (mdnsAnnounceInterface s),
          SetMdnsBroadcaster node (MdnsBroadcaster (mdnsAnnounceInterface s)),
          MdnsScannerCreate, SetMdnsScanner node MdnsScanner]
    \<and> precededBy (newCalls s s') (Connect node) [MdnsScannerCreate, SetMdnsScanner node MdnsScanner]
    \<and> (delayedAnnouncement n \<longrightarrow> Advertise (ServerNode n) \<notin> set (newCalls s s'))
    \<and> (delayedPairing c \<longrightarrow> Connect (ControllerNode c) \<notin> set (newCalls s s'))
    \<and> (r = Inr () \<and> ServerNode n \<in> set (nodes s) \<longrightarrow>
          SetMdnsBroadcaster (ServerNode n) (MdnsBroadcaster (mdnsAnnounceInterface s))
            \<in> set (newCalls s s')
          \<and> SetMdnsScanner (ServerNode n) MdnsScanner \<in> set (newCalls s s')
          \<and> (\<not> delayedAnnouncement n \<longrightarrow> Advertise (ServerNode n) \<in> set (newCalls s s')))
    \<and> (r = Inr () \<and> ControllerNode c \<in> set (nodes s) \<longrightarrow>
          SetMdnsScanner (ControllerNode c) MdnsScanner \<in> set (newCalls s s')
          \<and> (\<not> delayedPairing c \<longrightarrow> Connect (ControllerNode c) \<in> set (newCalls s s')))"
proof -
  let ?iface = "mdnsAnnounceInterface s"
  let ?cs = "concat (map (startCalls ?iface) (nodes s))"
  from assms have run: "exec env ?cs s = (r, s')"
    by (simp add: start_exec)
  note sub = start_calls_subset [OF assms]
  from start_prefix [OF assms] obtain k where new: "newCalls s s' = take k ?cs" ..
  have "precededBy (newCalls s s') (Advertise node)
         [MdnsBroadcasterCreate ?iface, SetMdnsBroadcaster node (MdnsBroadcaster ?iface),
          MdnsScannerCreate, SetMdnsScanner node MdnsScanner]"
    unfolding new by (intro precededBy_take precededBy_concat startCalls_advertise)
  moreover have "precededBy (newCalls s s') (Connect node)
         [MdnsScannerCreate, SetMdnsScanner node MdnsScanner]"
    unfolding new by (intro precededBy_take precededBy_concat startCalls_connect)
  moreover have "Advertise (ServerNode n) \<notin> set (newCalls s s')" if "delayedAnnouncement n"
    using sub startCalls_deferred(1) [OF that, of ?iface] by blast
  moreover have "Connect (ControllerNode c) \<notin> set (newCalls s s')" if "delayedPairing c"
    using sub startCalls_deferred(2) [OF that, of ?iface] by blast
  moreover have "SetMdnsBroadcaster (ServerNode n) (MdnsBroadcaster ?iface) \<in> set (newCalls s s')
          \<and> SetMdnsScanner (ServerNode n) MdnsScanner \<in> set (newCalls s s')
          \<and> (\<not> delayedAnnouncement n \<longrightarrow> Advertise (ServerNode n) \<in> set (newCalls s s'))"
    if "r = Inr ()" "ServerNode n \<in> set (nodes s)"
  proof -
    from that(1) run have "newCalls s s' = ?cs" by (simp add: exec_success)
    moreover from that(2) have "set (startCalls ?iface (ServerNode n)) \<subseteq> set ?cs"
      by (rule set_concat_map)
    ultimately show ?thesis by auto
  qed
  moreover have "SetMdnsScanner (ControllerNode c) MdnsScanner \<in> set (newCalls s s')
          \<and> (\<not> delayedPairing c \<longrightarrow> Connect (ControllerNode c) \<in> set (newCalls s s'))"
    if "r = Inr ()" "ControllerNode c \<in> set (nodes s)"
  proof -
    from that(1) run have "newCalls s s' = ?cs" by (simp add: exec_success)
    moreover from that(2) have "set (startCalls ?iface (ControllerNode c)) \<subseteq> set ?cs"
      by (rule set_concat_map)
    ultimately show ?thesis by auto
  qed
  ultimately show ?thesis using exec_frame [OF run] by blast
qed

theorem start_injects_before_default_action_witness:
  "start reliable (serverWith [ServerNode serverA, ControllerNode deferredController])
   = (Inr (),
      (serverWith [ServerNode serverA, ControllerNode deferredController])
        \<lparr>trace := [MdnsBroadcasterCreate None,
                   SetMdnsBroadcaster (ServerNode serverA) (MdnsBroadcaster None),
                   MdnsScannerCreate, SetMdnsScanner (ServerNode serverA) MdnsScanner,
                   Advertise (ServerNode serverA),
                   MdnsScannerCreate,
                   SetMdnsScanner (ControllerNode deferredController) MdnsScanner]\<rparr>)
   \<and> newCalls (serverWith [ServerNode serverA, ControllerNode deferredController])
        (snd (start reliable (serverWith [ServerNode serverA, ControllerNode deferredController])))
        ! 4 = Advertise (ServerNode serverA)
   \<and> take 4 (drop (4 - 4)
        (newCalls (serverWith [ServerNode serverA, ControllerNode deferredController])
          (snd (start reliable (serverWith [ServerNode serverA, ControllerNode deferredController])))))
      = [MdnsBroadcasterCreate None,
         SetMdnsBroadcaster (ServerNode serverA) (MdnsBroadcaster None),
         MdnsScannerCreate, SetMdnsScanner (ServerNode serverA) MdnsScanner]
   \<and> \<not> delayedAnnouncement serverA
   \<and> Advertise (ServerNode serverA)
       \<in> set (newCalls (serverWith [ServerNode serverA, ControllerNode deferredController])
          (snd (start reliable (serverWith [ServerNode serverA, ControllerNode deferredController]))))
   \<and> delayedPairing deferredController
   \<and> Connect (ControllerNode deferredController)
       \<notin> set (newCalls (serverWith [ServerNode serverA, ControllerNode deferredController])
          (snd (start reliable (serverWith [ServerNode serverA, ControllerNode deferredController]))))
   \<and> SetMdnsScanner (ControllerNode deferredController) MdnsScanner
       \<in> set (newCalls (serverWith [ServerNode serverA, ControllerNode deferredController])
          (snd (start reliable (serverWith [ServerNode serverA, ControllerNode deferredController]))))"
proof -
  have run: "start reliable (serverWith [ServerNode serverA, ControllerNode deferredController])
   = (Inr (),
      (serverWith [ServerNode serverA, ControllerNode deferredController])
        \<lparr>trace := [MdnsBroadcasterCreate None,
                   SetMdnsBroadcaster (ServerNode serverA) (MdnsBroadcaster None),
                   MdnsScannerCreate, SetMdnsScanner (ServerNode serverA) MdnsScanner,
                   Advertise (ServerNode serverA),
                   MdnsScannerCreate,
                   SetMdnsScanner (ControllerNode deferredController) MdnsScanner]\<rparr>)"
    by (simp add: start_def andThen_def invoke_def raises_def reliable_def serverWith_def
        createBroadcaster_def createScanner_def succeed_def serverA_def deferredController_def)
  from start_injects_before_default_action [OF run, of "ServerNode serverA" serverA
      deferredController] run
  show ?thesis
    by (simp add: serverWith_def newCalls_def serverA_def deferredController_def)
qed

text \<open>
  C5: the id handed to \<^verbatim>\<open>createContext\<close> by a registration (of either variant) is
  \<^verbatim>\<open>uniqueNodeId\<close> when the options carry one, and the decimal string of the registry's
  length otherwise. A registration on an empty registry makes that call first; no
  registration asks for a context under any other id. So the first node registered without
  \<^verbatim>\<open>uniqueNodeId\<close> gets \<open>''0''\<close>, and \<open>''home''\<close> is used as given, whatever the length.
\<close>

theorem storage_context_id:
  "(nodes s = [] \<longrightarrow>
      take 1 (newCalls s (snd (addCommissioningServer env a opts s)))
        = [CreateContext (contextId opts (nodes s))]
      \<and> take 1 (newCalls s (snd (addCommissioningController env b opts s)))
        = [CreateContext (contextId opts (nodes s))])
   \<and> (CreateContext ident \<in> set (newCalls s (snd (addCommissioningServer env a opts s)))
        \<longrightarrow> ident = contextId opts (nodes s))
   \<and> (CreateContext ident \<in> set (newCalls s (snd (addCommissioningController env b opts s)))
        \<longrightarrow> ident = contextId opts (nodes s))
   \<and> contextId (Some \<lparr>uniqueNodeId = Some u\<rparr>) ns = u
   \<and> contextId (Some \<lparr>uniqueNodeId = None\<rparr>) ns = toString (length ns)
   \<and> contextId None ns = toString (length ns)
   \<and> contextId None [] = ''0''
   \<and> contextId (Some \<lparr>uniqueNodeId = Some ''home''\<rparr>) ns = ''home''"
proof -
  have calls: "(nodes s = [] \<longrightarrow>
      take 1 (newCalls s (snd (addCommissioningServer env a opts s)))
        = [CreateContext (contextId opts (nodes s))]
      \<and> take 1 (newCalls s (snd (addCommissioningController env b opts s)))
        = [CreateContext (contextId opts (nodes s))])
   \<and> (CreateContext ident \<in> set (newCalls s (snd (addCommissioningServer env a opts s)))
        \<longrightarrow> ident = contextId opts (nodes s))
   \<and> (CreateContext ident \<in> set (newCalls s (snd (addCommissioningController env b opts s)))
        \<longrightarrow> ident = contextId opts (nodes s))"
    by (simp add: add_server_cases add_controller_cases newCalls_def)
  have ids: "contextId (Some \<lparr>uniqueNodeId = Some u\<rparr>) ns = u
   \<and> contextId (Some \<lparr>uniqueNodeId = None\<rparr>) ns = toString (length ns)
   \<and> contextId None ns = toString (length ns)
   \<and> contextId None [] = ''0''
   \<and> contextId (Some \<lparr>uniqueNodeId = Some ''home''\<rparr>) ns = ''home''"
    by (simp add: contextId_def toString_zero)
  from calls ids show ?thesis by blast
qed

theorem storage_context_id_witness:
  "nodes (newMatterServer None) = []
   \<and> take 1 (newCalls (newMatterServer None)
        (snd (addCommissioningServer reliable serverA None (newMatterServer None))))
      = [CreateContext ''0'']
   \<and> take 1 (newCalls (newMatterServer None)
        (snd (addCommissioningController reliable controllerC
                (Some \<lparr>uniqueNodeId = Some ''home''\<rparr>) (newMatterServer None))))
      = [CreateContext ''home'']
   \<and> CreateContext ''0'' \<in> set (newCalls (newMatterServer None)
        (snd (addCommissioningServer reliable serverA None (newMatterServer None))))
   \<and> CreateContext ''home'' \<in> set (newCalls (newMatterServer None)
        (snd (addCommissioningController reliable controllerC
                (Some \<lparr>uniqueNodeId = Some ''home''\<rparr>) (newMatterServer None))))
   \<and> contextId None (nodes (newMatterServer None)) = ''0''
   \<and> contextId (Some \<lparr>uniqueNodeId = Some ''home''\<rparr>) (nodes (newMatterServer None)) = ''home''"
proof -
  have empty: "nodes (newMatterServer None) = []"
    by (simp add: newMatterServer_def)
  from storage_context_id [of "newMatterServer None" reliable serverA None controllerC
      "''0''" "''home''" "[]"]
    storage_context_id [of "newMatterServer None" reliable serverA
      "Some \<lparr>uniqueNodeId = Some ''home''\<rparr>" controllerC "''home''" "''home''" "[]"]
    empty
  show ?thesis
    by (simp add: add_server_cases add_controller_cases newCalls_def newMatterServer_def
        reliable_def raises_def contextId_def toString_zero)
qed

text \<open>
  C6: \<^verbatim>\<open>start()\<close> is fail-fast. A call to a collaborator that raises while
  \<^verbatim>\<open>start()\<close> runs (the construction of a discovery service, a node's advertise or
  connect, or any other call) is the last call \<^verbatim>\<open>start()\<close> makes, and its error is
  what \<^verbatim>\<open>start()\<close> throws: nothing is injected and no default action runs after it,
  for that node or a later one. Conversely, when \<^verbatim>\<open>start()\<close> throws, it throws the
  error of its last call.
\<close>

theorem start_fail_fast:
  assumes "start env s = (r, s')"
  shows "nodes s' = nodes s \<and> trace s' = trace s @ newCalls s s' \<and>
    (\<forall>i<length (newCalls s s').
       raises env (trace s @ take i (newCalls s s')) (newCalls s s' ! i) \<longrightarrow>
         r = Inl (CollaboratorFailure (newCalls s s' ! i)) \<and> Suc i = length (newCalls s s')) \<and>
    (\<forall>e. r = Inl e \<longrightarrow>
       newCalls s s' \<noteq> [] \<and> e = CollaboratorFailure (last (newCalls s s')) \<and>
       raises env (trace s @ butlast (newCalls s s')) (last (newCalls s s')))"
proof -
  let ?cs = "concat (map (startCalls (mdnsAnnounceInterface s)) (nodes s))"
  from assms have run: "exec env ?cs s = (r, s')"
    by (simp add: start_exec)
  have "r = Inl (CollaboratorFailure (newCalls s s' ! i)) \<and> Suc i = length (newCalls s s')"
    if "i < length (newCalls s s')"
      and "raises env (trace s @ take i (newCalls s s')) (newCalls s s' ! i)" for i
    using exec_raise_is_last [OF run that] .
  moreover have "newCalls s s' \<noteq> [] \<and> e = CollaboratorFailure (last (newCalls s s')) \<and>
       raises env (trace s @ butlast (newCalls s s')) (last (newCalls s s'))" if "r = Inl e" for e
    using exec_failure [of env ?cs s e s'] run that by simp
  ultimately show ?thesis using exec_frame [OF run] by blast
qed

theorem start_fail_fast_witness:
  "start (failingAt MdnsScannerCreate) (serverWith [ServerNode serverA, ControllerNode controllerC])
   = (Inl (CollaboratorFailure MdnsScannerCreate),
      (serverWith [ServerNode serverA, ControllerNode controllerC])
        \<lparr>trace := [MdnsBroadcasterCreate None,
                   SetMdnsBroadcaster (ServerNode serverA) (MdnsBroadcaster None),
                   MdnsScannerCreate]\<rparr>)
   \<and> raises (failingAt MdnsScannerCreate)
        [MdnsBroadcasterCreate None,
         SetMdnsBroadcaster (ServerNode serverA) (MdnsBroadcaster None)] MdnsScannerCreate
   \<and> newCalls (serverWith [ServerNode serverA, ControllerNode controllerC])
        ((serverWith [ServerNode serverA, ControllerNode controllerC])
           \<lparr>trace := [MdnsBroadcasterCreate None,
                      SetMdnsBroadcaster (ServerNode serverA) (MdnsBroadcaster None),
                      MdnsScannerCreate]\<rparr>) ! 2 = MdnsScannerCreate
   \<and> Suc 2 = length (newCalls (serverWith [ServerNode serverA, ControllerNode controllerC])
        ((serverWith [ServerNode serverA, ControllerNode controllerC])
           \<lparr>trace := [MdnsBroadcasterCreate None,
                      SetMdnsBroadcaster (ServerNode serverA) (MdnsBroadcaster None),
                      MdnsScannerCreate]\<rparr>))"
proof -
  have run: "start (failingAt MdnsScannerCreate)
      (serverWith [ServerNode serverA, ControllerNode controllerC])
   = (Inl (CollaboratorFailure MdnsScannerCreate),
      (serverWith [ServerNode serverA, ControllerNode controllerC])
        \<lparr>trace := [MdnsBroadcasterCreate None,
                   SetMdnsBroadcaster (ServerNode serverA) (MdnsBroadcaster None),
                   MdnsScannerCreate]\<rparr>)"
    by (simp add: start_def andThen_def invoke_def raises_def failingAt_def serverWith_def
        createBroadcaster_def createScanner_def)
  from start_fail_fast [OF run] run show ?thesis
    by (simp add: failingAt_def newCalls_def serverWith_def raises_def)
qed

text \<open>
  C7, as stated, fails: nothing in \<^verbatim>\<open>addCommissioningServer\<close> catches what
  \<^verbatim>\<open>setStorage\<close> throws. When \<^verbatim>\<open>setStorage\<close> raises, the registration fails
  after the call was made and the node is not pushed, so the registry stays empty and the same
  node can be registered again: \<^verbatim>\<open>setStorage\<close> is then called on it a second time.
\<close>

theorem storage_assigned_once_counterexample:
  "fst (addCommissioningServer
          (failingFirst (SetStorage (ServerNode serverA) (StorageContext ''0'')))
          serverA None (newMatterServer None))
     = Inl (CollaboratorFailure (SetStorage (ServerNode serverA) (StorageContext ''0'')))
   \<and> SetStorage (ServerNode serverA) (StorageContext ''0'')
       \<in> set (trace (snd (addCommissioningServer
             (failingFirst (SetStorage (ServerNode serverA) (StorageContext ''0'')))
             serverA None (newMatterServer None))))
   \<and> filter (assignsStorage (ServerNode serverA))
        (trace (run (failingFirst (SetStorage (ServerNode serverA) (StorageContext ''0'')))
                  [OpAddCommissioningServer serverA None, OpAddCommissioningServer serverA None]
                  (newMatterServer None)))
     = [SetStorage (ServerNode serverA) (StorageContext ''0''),
        SetStorage (ServerNode serverA) (StorageContext ''0'')]
   \<and> nodes (run (failingFirst (SetStorage (ServerNode serverA) (StorageContext ''0'')))
                [OpAddCommissioningServer serverA None, OpAddCommissioningServer serverA None]
                (newMatterServer None))
     = [ServerNode serverA]"
  by (simp add: add_server_cases newMatterServer_def failingFirst_def raises_def contextId_def
      toString_zero)

text \<open>
  C7 (amended): a node's storage context is assigned by a \<^verbatim>\<open>setStorage\<close> call that
  returns exactly once, in its successful registration. After any sequence of registrations,
  starts and closes on a new server, exactly one \<^verbatim>\<open>setStorage\<close> call has returned on
  a node that is in the registry, and none on any other node. A registration calls
  \<^verbatim>\<open>setStorage\<close> at most once; a successful one makes exactly that one injection; a
  failed one has called it only when the failure is the error of that very call.
  \<^verbatim>\<open>start()\<close> and \<^verbatim>\<open>close()\<close> never call \<^verbatim>\<open>setStorage\<close>.
\<close>

theorem storage_assigned_once:
  "length (filter (assignsStorage node)
            (returned env [] (trace (run env ops (newMatterServer iface)))))
     = (if node \<in> set (nodes (run env ops (newMatterServer iface))) then 1 else 0)
   \<and> (fst (addCommissioningServer env a opts s) = Inr () \<longrightarrow>
        filter isInjection (newCalls s (snd (addCommissioningServer env a opts s)))
          = [SetStorage (ServerNode a) (StorageContext (contextId opts (nodes s)))])
   \<and> (fst (addCommissioningController env b opts s) = Inr () \<longrightarrow>
        filter isInjection (newCalls s (snd (addCommissioningController env b opts s)))
          = [SetStorage (ControllerNode b) (StorageContext (contextId opts (nodes s)))])
   \<and> length (filter isInjection (newCalls s (snd (addCommissioningServer env a opts s)))) \<le> 1
   \<and> length (filter isInjection (newCalls s (snd (addCommissioningController env b opts s)))) \<le> 1
   \<and> (SetStorage n ctx \<in> set (newCalls s (snd (addCommissioningServer env a opts s))) \<longrightarrow>
        fst (addCommissioningServer env a opts s) = Inr () \<or>
        fst (addCommissioningServer env a opts s) = Inl (CollaboratorFailure (SetStorage n ctx)))
   \<and> (SetStorage n ctx \<in> set (newCalls s (snd (addCommissioningController env b opts s))) \<longrightarrow>
        fst (addCommissioningController env b opts s) = Inr () \<or>
        fst (addCommissioningController env b opts s)
          = Inl (CollaboratorFailure (SetStorage n ctx)))
   \<and> SetStorage n ctx \<notin> set (newCalls s (snd (start env s)))
   \<and> SetStorage n ctx \<notin> set (newCalls s (snd (close env s)))"
proof -
  let ?s = "run env ops (newMatterServer iface)"
  have "assignedAsRegistered env ?s"
    by (rule run_assignedAsRegistered [OF new_assignedAsRegistered])
  then have "length (filter (assignsStorage node) (returned env [] (trace ?s)))
      = (if node \<in> set (nodes ?s) then 1 else 0)"
    by (simp add: assignedAsRegistered_def count_list_short)
  moreover have "fst (addCommissioningServer env a opts s) = Inr () \<longrightarrow>
        filter isInjection (newCalls s (snd (addCommissioningServer env a opts s)))
          = [SetStorage (ServerNode a) (StorageContext (contextId opts (nodes s)))]"
    by (simp add: add_server_cases newCalls_def)
  moreover have "fst (addCommissioningController env b opts s) = Inr () \<longrightarrow>
        filter isInjection (newCalls s (snd (addCommissioningController env b opts s)))
          = [SetStorage (ControllerNode b) (StorageContext (contextId opts (nodes s)))]"
    by (simp add: add_controller_cases newCalls_def)
  moreover have
    "length (filter isInjection (newCalls s (snd (addCommissioningServer env a opts s)))) \<le> 1"
    by (simp add: add_server_cases newCalls_def)
  moreover have
    "length (filter isInjection (newCalls s (snd (addCommissioningController env b opts s)))) \<le> 1"
    by (simp add: add_controller_cases newCalls_def)
  moreover have
    "SetStorage n ctx \<in> set (newCalls s (snd (addCommissioningServer env a opts s))) \<longrightarrow>
        fst (addCommissioningServer env a opts s) = Inr () \<or>
        fst (addCommissioningServer env a opts s) = Inl (CollaboratorFailure (SetStorage n ctx))"
    by (simp add: add_server_cases newCalls_def)
  moreover have
    "SetStorage n ctx \<in> set (newCalls s (snd (addCommissioningController env b opts s))) \<longrightarrow>
        fst (addCommissioningController env b opts s) = Inr () \<or>
        fst (addCommissioningController env b opts s)
          = Inl (CollaboratorFailure (SetStorage n ctx))"
    by (simp add: add_controller_cases newCalls_def)
  ultimately show ?thesis
    using start_no_storage [of n ctx s env] close_no_storage [of n ctx s env] by blast
qed

theorem storage_assigned_once_witness:
  "length (filter (assignsStorage (ControllerNode controllerC))
      (returned reliable [] (trace (run reliable
         [OpAddCommissioningController controllerC None,
          OpAddCommissioningServer serverA None, OpStart, OpClose]
         (newMatterServer None))))) = 1
   \<and> ControllerNode controllerC \<in> set (nodes (run reliable
         [OpAddCommissioningController controllerC None,
          OpAddCommissioningServer serverA None, OpStart, OpClose]
         (newMatterServer None)))
   \<and> length (filter (assignsStorage (ServerNode serverA))
      (returned reliable [] (trace (run reliable
         [OpAddCommissioningController controllerC None,
          OpAddCommissioningServer serverA None, OpStart, OpClose]
         (newMatterServer None))))) = 0
   \<and> ServerNode serverA \<notin> set (nodes (run reliable
         [OpAddCommissioningController controllerC None,
          OpAddCommissioningServer serverA None, OpStart, OpClose]
         (newMatterServer None)))
   \<and> fst (addCommissioningController reliable controllerC None (newMatterServer None)) = Inr ()
   \<and> filter isInjection (newCalls (newMatterServer None)
         (snd (addCommissioningController reliable controllerC None (newMatterServer None))))
       = [SetStorage (ControllerNode controllerC) (StorageContext ''0'')]
   \<and> fst (addCommissioningServer reliable serverA None (newMatterServer None)) = Inr ()
   \<and> filter isInjection (newCalls (newMatterServer None)
         (snd (addCommissioningServer reliable serverA None (newMatterServer None))))
       = [SetStorage (ServerNode serverA) (StorageContext ''0'')]
   \<and> (SetStorage (ServerNode serverA) (StorageContext ''0''))
       \<in> set (newCalls (newMatterServer None)
           (snd (addCommissioningServer (failingAt (SetStorage (ServerNode serverA) (StorageContext ''0''))) serverA None (newMatterServer None))))
   \<and> fst (addCommissioningServer (failingAt (SetStorage (ServerNode serverA) (StorageContext ''0''))) serverA None (newMatterServer None))
       = Inl (CollaboratorFailure (SetStorage (ServerNode serverA) (StorageContext ''0'')))
   \<and> length (filter (assignsStorage (ServerNode serverA))
      (returned (failingAt (SetStorage (ServerNode serverA) (StorageContext ''0''))) [] (trace (run (failingAt (SetStorage (ServerNode serverA) (StorageContext ''0'')))
         [OpAddCommissioningServer serverA None] (newMatterServer None))))) = 0
   \<and> ServerNode serverA \<notin> set (nodes (run (failingAt (SetStorage (ServerNode serverA) (StorageContext ''0'')))
         [OpAddCommissioningServer serverA None] (newMatterServer None)))"
proof -
  have final: "(run reliable
         [OpAddCommissioningController controllerC None,
          OpAddCommissioningServer serverA None, OpStart, OpClose]
         (newMatterServer None))
    = \<lparr>nodes = [ControllerNode controllerC], mdnsAnnounceInterface = None,
       trace = [CreateContext ''0'',
                SetStorage (ControllerNode controllerC) (StorageContext ''0''),
                MdnsScannerCreate, SetMdnsScanner (ControllerNode controllerC) MdnsScanner,
                Connect (ControllerNode controllerC), NodeClose (ControllerNode controllerC)]\<rparr>"
    by (simp add: add_server_cases add_controller_cases newMatterServer_def reliable_def
        raises_def contextId_def toString_zero start_def close_def andThen_def invoke_def
        succeed_def createScanner_def controllerC_def)
  have failed: "(run (failingAt (SetStorage (ServerNode serverA) (StorageContext ''0'')))
         [OpAddCommissioningServer serverA None] (newMatterServer None))
    = \<lparr>nodes = [], mdnsAnnounceInterface = None,
       trace = [CreateContext ''0'', (SetStorage (ServerNode serverA) (StorageContext ''0''))]\<rparr>"
    by (simp add: add_server_cases newMatterServer_def failingAt_def raises_def contextId_def
        toString_zero)
  from storage_assigned_once [where node = "ControllerNode controllerC" and env = reliable
      and iface = None and b = controllerC and a = serverA and opts = None
      and s = "newMatterServer None"
      and ops = "[OpAddCommissioningController controllerC None,
          OpAddCommissioningServer serverA None, OpStart, OpClose]"]
    storage_assigned_once [where node = "ServerNode serverA" and env = reliable
      and iface = None
      and ops = "[OpAddCommissioningController controllerC None,
          OpAddCommissioningServer serverA None, OpStart, OpClose]"]
    storage_assigned_once [where node = "ServerNode serverA" and env = "failingAt (SetStorage (ServerNode serverA) (StorageContext ''0''))"
      and iface = None and ops = "[OpAddCommissioningServer serverA None]"
      and a = serverA and opts = None and s = "newMatterServer None"
      and n = "ServerNode serverA" and ctx = "StorageContext ''0''"]
  show ?thesis
    unfolding final failed
    by (simp add: add_server_cases add_controller_cases newMatterServer_def reliable_def
        raises_def contextId_def toString_zero newCalls_def failingAt_def
        serverA_def controllerC_def)
qed

text \<open>
  C8: on an empty registry \<^verbatim>\<open>close()\<close> returns normally and changes nothing, and so
  does a second \<^verbatim>\<open>close()\<close> after it: no node operation is invoked (the trace is the
  same) and the whole state is the same.
\<close>

theorem close_empty:
  assumes "nodes s = []"
  shows "close env s = (Inr (), s) \<and> andThen (close env) (\<lambda>_. close env) s = (Inr (), s)"
  using assms by (simp add: close_def succeed_def andThen_def)

theorem close_empty_witness:
  "nodes (newMatterServer None) = []
   \<and> close reliable (newMatterServer None) = (Inr (), newMatterServer None)
   \<and> andThen (close reliable) (\<lambda>_. close reliable) (newMatterServer None)
       = (Inr (), newMatterServer None)"
proof -
  have empty: "nodes (newMatterServer None) = []"
    by (simp add: newMatterServer_def)
  from close_empty [OF empty, of reliable] empty show ?thesis by simp
qed

text \<open>
  C9: \<^verbatim>\<open>close()\<close> never removes an entry: whether it returns or throws, the registry
  afterwards holds the same nodes in the same order.
\<close>

theorem close_keeps_registry:
  "nodes (snd (close env s)) = nodes s"
  using exec_frame [of env "map NodeClose (nodes s)" s "fst (close env s)" "snd (close env s)"]
  by (simp add: close_exec)

text \<open>
  C10: \<^verbatim>\<open>start()\<close> dispatches on the class of the node. It never calls
  \<^verbatim>\<open>setMdnsBroadcaster\<close> or \<^verbatim>\<open>advertise\<close> on a controller and never calls
  \<^verbatim>\<open>connect\<close> on a server; and a node is advertised or connected at most as many times
  as it stands in the registry, so at most once when it is registered once.
\<close>

theorem start_dispatch_by_variant:
  assumes "start env s = (r, s')"
  shows "SetMdnsBroadcaster (ControllerNode c) b \<notin> set (newCalls s s')
       \<and> Advertise (ControllerNode c) \<notin> set (newCalls s s')
       \<and> Connect (ServerNode n) \<notin> set (newCalls s s')
       \<and> count_list (newCalls s s') (Advertise node) \<le> count_list (nodes s) node
       \<and> count_list (newCalls s s') (Connect node) \<le> count_list (nodes s) node"
proof -
  let ?iface = "mdnsAnnounceInterface s"
  note sub = start_calls_subset [OF assms]
  from start_prefix [OF assms] obtain k where
    new: "newCalls s s' = take k (concat (map (startCalls ?iface) (nodes s)))" ..
  have "SetMdnsBroadcaster (ControllerNode c) b \<notin> set (newCalls s s')"
    using sub startCalls_variant(1) [of c b ?iface] by blast
  moreover have "Advertise (ControllerNode c) \<notin> set (newCalls s s')"
    using sub startCalls_variant(2) [of c ?iface] by blast
  moreover have "Connect (ServerNode n) \<notin> set (newCalls s s')"
    using sub startCalls_variant(3) [of n ?iface] by blast
  moreover have "count_list (newCalls s s') (Advertise node) \<le> count_list (nodes s) node"
    unfolding new
    by (rule order_trans [OF count_list_take start_calls_count_advertise])
  moreover have "count_list (newCalls s s') (Connect node) \<le> count_list (nodes s) node"
    unfolding new
    by (rule order_trans [OF count_list_take start_calls_count_connect])
  ultimately show ?thesis by blast
qed

theorem start_dispatch_by_variant_witness:
  "start reliable (serverWith [ControllerNode controllerC, ServerNode serverA])
   = (Inr (),
      (serverWith [ControllerNode controllerC, ServerNode serverA])
        \<lparr>trace := [MdnsScannerCreate, SetMdnsScanner (ControllerNode controllerC) MdnsScanner,
                   Connect (ControllerNode controllerC),
                   MdnsBroadcasterCreate None,
                   SetMdnsBroadcaster (ServerNode serverA) (MdnsBroadcaster None),
                   MdnsScannerCreate, SetMdnsScanner (ServerNode serverA) MdnsScanner,
                   Advertise (ServerNode serverA)]\<rparr>)
   \<and> SetMdnsBroadcaster (ControllerNode controllerC) (MdnsBroadcaster None)
       \<notin> set (newCalls (serverWith [ControllerNode controllerC, ServerNode serverA])
                (snd (start reliable (serverWith [ControllerNode controllerC, ServerNode serverA]))))
   \<and> Advertise (ControllerNode controllerC)
       \<notin> set (newCalls (serverWith [ControllerNode controllerC, ServerNode serverA])
                (snd (start reliable (serverWith [ControllerNode controllerC, ServerNode serverA]))))
   \<and> Connect (ServerNode serverA)
       \<notin> set (newCalls (serverWith [ControllerNode controllerC, ServerNode serverA])
                (snd (start reliable (serverWith [ControllerNode controllerC, ServerNode serverA]))))
   \<and> count_list (newCalls (serverWith [ControllerNode controllerC, ServerNode serverA])
                (snd (start reliable (serverWith [ControllerNode controllerC, ServerNode serverA]))))
        (Advertise (ServerNode serverA))
      \<le> count_list [ControllerNode controllerC, ServerNode serverA] (ServerNode serverA)
   \<and> count_list (newCalls (serverWith [ControllerNode controllerC, ServerNode serverA])
                (snd (start reliable (serverWith [ControllerNode controllerC, ServerNode serverA]))))
        (Connect (ControllerNode controllerC))
      \<le> count_list [ControllerNode controllerC, ServerNode serverA] (ControllerNode controllerC)"
proof -
  have run: "start reliable (serverWith [ControllerNode controllerC, ServerNode serverA])
   = (Inr (),
      (serverWith [ControllerNode controllerC, ServerNode serverA])
        \<lparr>trace := [MdnsScannerCreate, SetMdnsScanner (ControllerNode controllerC) MdnsScanner,
                   Connect (ControllerNode controllerC),
                   MdnsBroadcasterCreate None,
                   SetMdnsBroadcaster (ServerNode serverA) (MdnsBroadcaster None),
                   MdnsScannerCreate, SetMdnsScanner (ServerNode serverA) MdnsScanner,
                   Advertise (ServerNode serverA)]\<rparr>)"
    by (simp add: start_def andThen_def invoke_def raises_def reliable_def serverWith_def
        createBroadcaster_def createScanner_def succeed_def serverA_def controllerC_def)
  from start_dispatch_by_variant [OF run, of controllerC "MdnsBroadcaster None" serverA
      "ServerNode serverA"]
    start_dispatch_by_variant [OF run, of controllerC "MdnsBroadcaster None" serverA
      "ControllerNode controllerC"] run
  show ?thesis by (simp add: serverWith_def)
qed

end
